theory Spec2Isabelle
  imports Complex_Main "HOL-Library.Product_Lexorder"
begin

section \<open>Strings and paths as the Python code uses them\<close>

text \<open>
  File names are \<open>string\<close>s. A directory is the list of the names it holds, in the order
  in which \<open>Path.glob\<close> enumerates them; all files of one run live in the same flat
  directory, so two paths are equal exactly when their names are.
\<close>

definition startswith :: "string \<Rightarrow> string \<Rightarrow> bool" where
  "startswith s p = (take (length p) s = p)"

definition endswith :: "string \<Rightarrow> string \<Rightarrow> bool" where
  "endswith s p = (length p \<le> length s \<and> drop (length s - length p) s = p)"

text \<open>A glob pattern of the shape \<open>prefix*suffix\<close>, with no other wildcard.\<close>

definition glob_match :: "string \<Rightarrow> string \<Rightarrow> string \<Rightarrow> bool" where
  "glob_match pre suf name =
     (length pre + length suf \<le> length name \<and> startswith name pre \<and> endswith name suf)"

text \<open>\<open>sub in s\<close> on Python strings.\<close>

fun contains :: "string \<Rightarrow> string \<Rightarrow> bool" where
  "contains sub [] = (sub = [])"
| "contains sub (x # xs) = (take (length sub) (x # xs) = sub \<or> contains sub xs)"

text \<open>\<open>s.split(c)\<close>: one field per delimiter, empty fields kept, never an empty list.\<close>

fun split_on :: "char \<Rightarrow> string \<Rightarrow> string list" where
  "split_on c [] = [[]]"
| "split_on c (x # xs) =
     (if x = c then [] # split_on c xs
      else (case split_on c xs of [] \<Rightarrow> [[x]] | p # ps \<Rightarrow> (x # p) # ps))"

text \<open>
  \<open>s.replace(old, '')\<close> for a non-empty \<open>old\<close>: one pass from the left, each
  occurrence dropped, the text after it scanned on. The counter is the number of
  characters of the current occurrence still to drop.
\<close>

fun remove_all :: "string \<Rightarrow> nat \<Rightarrow> string \<Rightarrow> string" where
  "remove_all old k [] = []"
| "remove_all old (Suc k) (x # xs) = remove_all old k xs"
| "remove_all old 0 (x # xs) =
     (if old \<noteq> [] \<and> take (length old) (x # xs) = old
      then remove_all old (length old - 1) xs
      else x # remove_all old 0 xs)"

fun rfind :: "char \<Rightarrow> string \<Rightarrow> nat option" where
  "rfind c [] = None"
| "rfind c (x # xs) =
     (case rfind c xs of
        Some i \<Rightarrow> Some (Suc i)
      | None \<Rightarrow> (if x = c then Some 0 else None))"

text \<open>\<open>Path.stem\<close>: the name without its last suffix; a leading or trailing dot starts no suffix.\<close>

definition stem :: "string \<Rightarrow> string" where
  "stem name =
     (case rfind CHR ''.'' name of
        None \<Rightarrow> name
      | Some i \<Rightarrow> (if 0 < i \<and> i < length name - 1 then take i name else name))"

subsection \<open>\<open>int(s)\<close>\<close>

definition is_space :: "char \<Rightarrow> bool" where
  "is_space c =
     (c \<in> set [CHR '' '', CHR 0x09, CHR 0x0A, CHR 0x0B, CHR 0x0C, CHR 0x0D,
                 CHR 0x1C, CHR 0x1D, CHR 0x1E, CHR 0x1F])"

definition is_digit :: "char \<Rightarrow> bool" where
  "is_digit c = (48 \<le> (of_char c :: nat) \<and> (of_char c :: nat) \<le> 57)"

definition digit_val :: "char \<Rightarrow> int" where
  "digit_val c = int (of_char c :: nat) - 48"

definition strip :: "string \<Rightarrow> string" where
  "strip s = rev (dropWhile is_space (rev (dropWhile is_space s)))"

definition digits_val :: "string \<Rightarrow> int option" where
  "digits_val ds =
     (if ds \<noteq> [] \<and> list_all is_digit ds
      then Some (foldl (\<lambda>acc d. 10 * acc + digit_val d) 0 ds) else None)"

text \<open>
  \<open>int(s)\<close> in base ten: surrounding white space and one sign are accepted; \<open>None\<close> is
  the \<open>ValueError\<close>. Every call of the program passes a field of \<open>split('_')\<close>, which
  holds no underscore, so digit grouping by underscores never arises; digits outside
  ASCII are not modelled.
\<close>

definition py_int :: "string \<Rightarrow> int option" where
  "py_int s =
     (case strip s of
        [] \<Rightarrow> None
      | c # cs \<Rightarrow>
          (if c = CHR ''-'' then map_option uminus (digits_val cs)
           else if c = CHR ''+'' then digits_val cs
           else digits_val (c # cs)))"

section \<open>File names\<close>

text \<open>\<open>str(n)\<close> for a natural number, as the f-strings of \<open>sync_and_get_hist_file\<close> print it.\<close>

fun digits_of :: "nat \<Rightarrow> string" where
  "digits_of n =
     (if n < 10 then [char_of (48 + n)] else digits_of (n div 10) @ [char_of (48 + n mod 10)])"

declare digits_of.simps [simp del]

definition regular_name :: "string \<Rightarrow> nat \<Rightarrow> nat \<Rightarrow> string" where
  "regular_name hostname pid timestamp =
     ''ipython_history_'' @ hostname @ ''_'' @ digits_of pid @ ''_'' @ digits_of timestamp @ ''.db''"

definition completed_name :: "string \<Rightarrow> nat \<Rightarrow> string" where
  "completed_name hostname timestamp =
     ''ipython_history_'' @ hostname @ ''_'' @ digits_of timestamp @ ''_completed.db''"

section \<open>\<open>get_safe_files_for_merge\<close>\<close>

datatype py_error = TypeError

text \<open>The name parts both loops of the function work on.\<close>

definition name_parts :: "string \<Rightarrow> string list" where
  "name_parts name = split_on CHR ''_'' (stem name)"

definition clean_parts :: "string \<Rightarrow> string list" where
  "clean_parts name = split_on CHR ''_'' (remove_all ''_completed'' 0 (stem name))"

text \<open>
  The second loop's test on one file: it is not the current file, its name does not
  contain \<open>_completed\<close>, it has at least four parts and the third is not this host.
\<close>

definition other_machine_file :: "string \<Rightarrow> string \<Rightarrow> string \<Rightarrow> bool" where
  "other_machine_file current_hostname current_file name =
     (name \<noteq> current_file \<and> \<not> contains ''_completed'' name \<and>
      4 \<le> length (name_parts name) \<and> name_parts name ! 2 \<noteq> current_hostname)"

text \<open>
  \<open>sort_key\<close>: \<open>None\<close> is Python's \<open>None\<close>, returned when the \<open>if\<close> fails and the
  function body ends; a \<open>ValueError\<close> of \<open>int\<close> gives \<open>(False, 0)\<close>.
\<close>

definition sort_key :: "string \<Rightarrow> string \<Rightarrow> (bool \<times> int) option" where
  "sort_key current_hostname name =
     (let parts = clean_parts name in
      if 4 \<le> length parts then
        (case py_int (last parts) of
           Some timestamp \<Rightarrow> Some (parts ! 2 = current_hostname, timestamp)
         | None \<Rightarrow> Some (False, 0))
      else None)"

text \<open>
  \<open>list.sort(key=..., reverse=True)\<close>: stable, descending. Two or more elements are
  compared with each other, and comparing \<open>None\<close> with a tuple or with \<open>None\<close> raises
  \<open>TypeError\<close>; a list of at most one element is compared with nothing.
\<close>

definition sort_reverse :: "('a \<Rightarrow> (bool \<times> int) option) \<Rightarrow> 'a list \<Rightarrow> py_error + 'a list" where
  "sort_reverse key xs =
     (if 2 \<le> length xs \<and> list_ex (\<lambda>x. key x = None) xs then Inl TypeError
      else Inr (rev (List.sort_key (\<lambda>x. the (key x)) (rev xs))))"

definition get_safe_files_for_merge :: "string list \<Rightarrow> string \<Rightarrow> string \<Rightarrow> py_error + string list" where
  "get_safe_files_for_merge sync_dir current_hostname current_file =
     (let completed_files = filter (glob_match ''ipython_history_'' ''_completed.db'') sync_dir;
          regular_files = filter (other_machine_file current_hostname current_file)
                            (filter (glob_match ''ipython_history_'' ''.db'') sync_dir)
      in sort_reverse (sort_key current_hostname) (completed_files @ regular_files))"

section \<open>\<open>cleanup_old_files\<close>\<close>

text \<open>The time stamp both \<open>merge_histories\<close> and \<open>cleanup_old_files\<close> read from a name.\<close>

definition file_timestamp :: "string \<Rightarrow> int option" where
  "file_timestamp name = py_int (last (clean_parts name))"

text \<open>
  One \<open>for file_path in sync_dir.glob(pattern)\<close> loop: a file goes when it matches the
  pattern, is not the current file, and its time stamp parses and is below the cutoff.
  The result is the directory after the loop. \<open>unlink\<close> is taken to succeed; an
  \<open>OSError\<close> would leave the file and go on.
\<close>

definition cleanup_pattern :: "real \<Rightarrow> string \<Rightarrow> string \<Rightarrow> string \<Rightarrow> string list \<Rightarrow> string list" where
  "cleanup_pattern cutoff_time pre suf current_file sync_dir =
     filter (\<lambda>name. \<not> (glob_match pre suf name \<and> name \<noteq> current_file \<and>
                        (case file_timestamp name of
                           Some t \<Rightarrow> real_of_int t < cutoff_time
                         | None \<Rightarrow> False)))
       sync_dir"

text \<open>
  \<open>now\<close> is the value of \<open>time.time()\<close>, a float, read as the real number it denotes;
  Python compares an int with a float by value. The host name is put into the patterns
  as it is and is taken to hold no wildcard character.
\<close>

definition cleanup_old_files :: "string list \<Rightarrow> string \<Rightarrow> string \<Rightarrow> int \<Rightarrow> real \<Rightarrow> string list" where
  "cleanup_old_files sync_dir hostname current_file max_age_seconds now =
     (let cutoff_time = now - real_of_int max_age_seconds;
          pre = ''ipython_history_'' @ hostname @ ''_''
      in cleanup_pattern cutoff_time pre ''_completed.db'' current_file
           (cleanup_pattern cutoff_time pre ''.db'' current_file sync_dir))"

section \<open>\<open>merge_histories\<close>\<close>

subsection \<open>Stores\<close>

text \<open>
  The three tables, as lists of rows. The session meta data is the tuple
  \<open>(start, end, num_cmds, remark)\<close>; a text column holds a string or \<open>NULL\<close>.
\<close>

type_synonym session_meta = "string option \<times> string option \<times> int option \<times> string option"
type_synonym session_row = "int \<times> session_meta"
type_synonym command_line = "int \<times> string option \<times> string option"
type_synonym output_line = "int \<times> string option"
type_synonym history_row = "int \<times> command_line"
type_synonym output_row = "int \<times> output_line"

text \<open>A source data base: a table that is \<open>None\<close> does not exist, and a query on it raises.\<close>

record source_db =
  sessions_tbl :: "session_row list option"
  history_tbl :: "history_row list option"
  output_history_tbl :: "output_row list option"

text \<open>
  A source file as \<open>merge_histories\<close> sees it: its name, \<open>int(stat().st_mtime)\<close>
  (\<open>None\<close> when \<open>stat\<close> raises \<open>OSError\<close>), and its content (\<open>None\<close> when the file is
  missing, empty of any table, or not a data base at all, so that the first query on
  \<open>sessions\<close> raises).
\<close>

record source_file =
  file_name :: string
  st_mtime :: "int option"
  database :: "source_db option"

record target_db =
  tgt_sessions :: "session_row list"
  tgt_history :: "history_row list"
  tgt_output_history :: "output_row list"

datatype sqlite_error = OperationalError | IntegrityError

text \<open>What a step gives back: the state it reached, and the error if it raised there.\<close>

datatype 'a outcome = Done 'a | Raised sqlite_error 'a

subsection \<open>Inserts into the target\<close>

text \<open>
  The target's tables are created with \<open>session\<close> as the primary key of \<open>sessions\<close>
  and \<open>(session, line)\<close> as that of \<open>history\<close> and \<open>output_history\<close>: an insert of a
  key that is there already raises \<open>IntegrityError\<close> and inserts nothing.
\<close>

definition row_key :: "int \<times> int \<times> 'a \<Rightarrow> int \<times> int" where
  "row_key r = (fst r, fst (snd r))"

definition insert_session :: "session_row \<Rightarrow> target_db \<Rightarrow> sqlite_error + target_db" where
  "insert_session r t =
     (if fst r \<in> set (map fst (tgt_sessions t)) then Inl IntegrityError
      else Inr (t\<lparr>tgt_sessions := tgt_sessions t @ [r]\<rparr>))"

definition insert_history :: "history_row \<Rightarrow> target_db \<Rightarrow> sqlite_error + target_db" where
  "insert_history r t =
     (if row_key r \<in> set (map row_key (tgt_history t)) then Inl IntegrityError
      else Inr (t\<lparr>tgt_history := tgt_history t @ [r]\<rparr>))"

definition insert_output :: "output_row \<Rightarrow> target_db \<Rightarrow> sqlite_error + target_db" where
  "insert_output r t =
     (if row_key r \<in> set (map row_key (tgt_output_history t)) then Inl IntegrityError
      else Inr (t\<lparr>tgt_output_history := tgt_output_history t @ [r]\<rparr>))"

text \<open>The two \<open>for\<close> loops over the commands and the outputs of one session.\<close>

fun insert_commands :: "int \<Rightarrow> command_line list \<Rightarrow> target_db \<Rightarrow> target_db outcome" where
  "insert_commands sid [] t = Done t"
| "insert_commands sid (c # cs) t =
     (case insert_history (sid, c) t of
        Inl e \<Rightarrow> Raised e t
      | Inr t' \<Rightarrow> insert_commands sid cs t')"

fun insert_outputs :: "int \<Rightarrow> output_line list \<Rightarrow> target_db \<Rightarrow> target_db outcome" where
  "insert_outputs sid [] t = Done t"
| "insert_outputs sid (c # cs) t =
     (case insert_output (sid, c) t of
        Inl e \<Rightarrow> Raised e t
      | Inr t' \<Rightarrow> insert_outputs sid cs t')"

subsection \<open>Queries on a source\<close>

text \<open>\<open>SELECT ... FROM sessions ORDER BY session\<close>.\<close>

definition select_sessions :: "session_row list \<Rightarrow> session_row list" where
  "select_sessions tbl = List.sort_key fst tbl"

text \<open>\<open>SELECT ... WHERE session = ? ORDER BY line\<close>, on \<open>history\<close> and on \<open>output_history\<close>.\<close>

definition select_lines :: "(int \<times> int \<times> 'a) list \<Rightarrow> int \<Rightarrow> (int \<times> 'a) list" where
  "select_lines tbl orig_session =
     List.sort_key fst (map snd (filter (\<lambda>r. fst r = orig_session) tbl))"

subsection \<open>Signatures\<close>

type_synonym signature = "(int \<times> string \<times> string) list \<times> (int \<times> string) list"

text \<open>\<open>x or ""\<close> on a text column.\<close>

definition or_empty :: "string option \<Rightarrow> string" where
  "or_empty x = (case x of None \<Rightarrow> [] | Some s \<Rightarrow> s)"

definition session_signature :: "command_line list \<Rightarrow> output_line list \<Rightarrow> signature" where
  "session_signature commands outputs =
     (map (\<lambda>(line, source, source_raw). (line, or_empty source, or_empty source_raw)) commands,
      map (\<lambda>(line, out). (line, or_empty out)) outputs)"

subsection \<open>The loop\<close>

record merge_state =
  target :: target_db
  seen_sessions :: "signature set"
  next_session_id :: int
  warnings :: "string list"

text \<open>
  The body of \<open>for session_row in sessions_cursor\<close>. An exception leaves the state as
  it is at that point: nothing is rolled back, and \<open>next_session_id\<close> is not counted up.
\<close>

definition merge_session :: "source_db \<Rightarrow> session_row \<Rightarrow> merge_state \<Rightarrow> merge_state outcome" where
  "merge_session db session_row st =
     (case history_tbl db of
        None \<Rightarrow> Raised OperationalError st
      | Some htbl \<Rightarrow>
          (let commands = select_lines htbl (fst session_row);
               outputs = (case output_history_tbl db of
                            None \<Rightarrow> []
                          | Some otbl \<Rightarrow> select_lines otbl (fst session_row));
               sig = session_signature commands outputs
           in if sig \<in> seen_sessions st then Done st
              else
                (let st1 = st\<lparr>seen_sessions := insert sig (seen_sessions st)\<rparr>;
                     sid = next_session_id st
                 in case insert_session (sid, snd session_row) (target st1) of
                      Inl e \<Rightarrow> Raised e st1
                    | Inr t1 \<Rightarrow>
                        (case insert_commands sid commands t1 of
                           Raised e t2 \<Rightarrow> Raised e (st1\<lparr>target := t2\<rparr>)
                         | Done t2 \<Rightarrow>
                             (case insert_outputs sid outputs t2 of
                                Raised e t3 \<Rightarrow> Raised e (st1\<lparr>target := t3\<rparr>)
                              | Done t3 \<Rightarrow>
                                  Done (st1\<lparr>target := t3, next_session_id := sid + 1\<rparr>))))))"

fun merge_sessions :: "source_db \<Rightarrow> session_row list \<Rightarrow> merge_state \<Rightarrow> merge_state outcome" where
  "merge_sessions db [] st = Done st"
| "merge_sessions db (r # rs) st =
     (case merge_session db r st of
        Raised e st' \<Rightarrow> Raised e st'
      | Done st' \<Rightarrow> merge_sessions db rs st')"

definition warn :: "bool \<Rightarrow> string \<Rightarrow> merge_state \<Rightarrow> merge_state" where
  "warn verbose name st = (if verbose then st\<lparr>warnings := warnings st @ [name]\<rparr> else st)"

text \<open>The body of \<open>for timestamp, source_file in files_with_times\<close>, with its \<open>except\<close>.\<close>

definition merge_source :: "bool \<Rightarrow> merge_state \<Rightarrow> source_file \<Rightarrow> merge_state" where
  "merge_source verbose st f =
     (case database f of
        None \<Rightarrow> warn verbose (file_name f) st
      | Some db \<Rightarrow>
          (case sessions_tbl db of
             None \<Rightarrow> warn verbose (file_name f) st
           | Some stbl \<Rightarrow>
               (case merge_sessions db (select_sessions stbl) st of
                  Raised e st' \<Rightarrow> warn verbose (file_name f) st'
                | Done st' \<Rightarrow> st')))"

text \<open>The time stamp a source is sorted by: from its name, else its modification time.\<close>

definition source_time :: "source_file \<Rightarrow> int option" where
  "source_time f =
     (case file_timestamp (file_name f) of
        Some timestamp \<Rightarrow> Some timestamp
      | None \<Rightarrow> st_mtime f)"

definition files_with_times :: "source_file list \<Rightarrow> (int \<times> source_file) list" where
  "files_with_times source_files =
     List.sort_key fst
       (concat (map (\<lambda>f. case source_time f of None \<Rightarrow> [] | Some t \<Rightarrow> [(t, f)]) source_files))"

definition initial_state :: merge_state where
  "initial_state =
     \<lparr>target = \<lparr>tgt_sessions = [], tgt_history = [], tgt_output_history = []\<rparr>,
      seen_sessions = {}, next_session_id = 1, warnings = []\<rparr>"

text \<open>
  The run on a fresh target. The result is the final state; \<open>merge_report\<close> is the
  pair of numbers the last message prints.
\<close>

definition merge_histories :: "bool \<Rightarrow> source_file list \<Rightarrow> merge_state" where
  "merge_histories verbose source_files =
     foldl (merge_source verbose) initial_state (map snd (files_with_times source_files))"


subsection \<open>What a source holds, and the target in closed form\<close>

text \<open>One session as the loop reads it: its meta data, its commands, its outputs.\<close>

type_synonym entry = "session_meta \<times> command_line list \<times> output_line list"

definition entry_signature :: "entry \<Rightarrow> signature" where
  "entry_signature e = session_signature (fst (snd e)) (snd (snd e))"

definition read_session :: "history_row list \<Rightarrow> output_row list option \<Rightarrow> session_row \<Rightarrow> entry" where
  "read_session htbl otbl r =
     (snd r, select_lines htbl (fst r),
      (case otbl of None \<Rightarrow> [] | Some tbl \<Rightarrow> select_lines tbl (fst r)))"

text \<open>
  The sessions of a source in the order the loop meets them; \<open>None\<close> when reading the
  source raises: no data base, no \<open>sessions\<close> table, or a session to read and no
  \<open>history\<close> table. A missing \<open>output_history\<close> table is no error.
\<close>

definition source_entries :: "source_file \<Rightarrow> entry list option" where
  "source_entries f =
     (case database f of
        None \<Rightarrow> None
      | Some db \<Rightarrow>
          (case sessions_tbl db of
             None \<Rightarrow> None
           | Some stbl \<Rightarrow>
               (case history_tbl db of
                  None \<Rightarrow> (if stbl = [] then Some [] else None)
                | Some htbl \<Rightarrow>
                    Some (map (read_session htbl (output_history_tbl db)) (select_sessions stbl)))))"

text \<open>
  The key constraints of the schema on a source: no two rows of \<open>history\<close>, and no two of
  \<open>output_history\<close>, with the same \<open>(session, line)\<close>.
\<close>

definition keys_distinct :: "source_file \<Rightarrow> bool" where
  "keys_distinct f =
     (case database f of
        None \<Rightarrow> True
      | Some db \<Rightarrow>
          (case history_tbl db of None \<Rightarrow> True | Some htbl \<Rightarrow> distinct (map row_key htbl)) \<and>
          (case output_history_tbl db of None \<Rightarrow> True | Some otbl \<Rightarrow> distinct (map row_key otbl)))"

text \<open>The sessions of all sources in the order of processing, unreadable sources left out.\<close>

definition processed_entries :: "source_file list \<Rightarrow> entry list" where
  "processed_entries source_files =
     concat (map (\<lambda>f. case source_entries f of None \<Rightarrow> [] | Some es \<Rightarrow> es)
               (map snd (files_with_times source_files)))"



text \<open>The accepted sessions: each signature once, at its first occurrence.\<close>

definition accept :: "entry list \<Rightarrow> entry \<Rightarrow> entry list" where
  "accept acc e = (if entry_signature e \<in> entry_signature ` set acc then acc else acc @ [e])"

text \<open>The same in closed form: the entries whose signature is not in \<open>S\<close> and not met before.\<close>

fun firsts :: "signature set \<Rightarrow> entry list \<Rightarrow> entry list" where
  "firsts S [] = []"
| "firsts S (e # es) =
     (if entry_signature e \<in> S then firsts S es
      else e # firsts (insert (entry_signature e) S) es)"

fun session_rows :: "int \<Rightarrow> entry list \<Rightarrow> session_row list" where
  "session_rows k [] = []"
| "session_rows k (e # es) = (k, fst e) # session_rows (k + 1) es"

fun history_rows :: "int \<Rightarrow> entry list \<Rightarrow> history_row list" where
  "history_rows k [] = []"
| "history_rows k (e # es) = map (Pair k) (fst (snd e)) @ history_rows (k + 1) es"

fun output_rows :: "int \<Rightarrow> entry list \<Rightarrow> output_row list" where
  "output_rows k [] = []"
| "output_rows k (e # es) = map (Pair k) (snd (snd e)) @ output_rows (k + 1) es"

definition lines_ordered :: "entry \<Rightarrow> bool" where
  "lines_ordered e =
     (distinct (map fst (fst (snd e))) \<and> distinct (map fst (snd (snd e))) \<and>
      sorted (map fst (fst (snd e))) \<and> sorted (map fst (snd (snd e))))"

text \<open>The state of the loop after it has accepted the sessions \<open>acc\<close>, in this order.\<close>

definition state_of :: "merge_state \<Rightarrow> entry list \<Rightarrow> bool" where
  "state_of st acc =
     (tgt_sessions (target st) = session_rows 1 acc \<and>
      tgt_history (target st) = history_rows 1 acc \<and>
      tgt_output_history (target st) = output_rows 1 acc \<and>
      seen_sessions st = entry_signature ` set acc \<and>
      next_session_id st = 1 + int (length acc) \<and>
      list_all lines_ordered acc)"

text \<open>What is stored in the target under a session id, read back as the sources are read.\<close>

definition target_signature :: "target_db \<Rightarrow> int \<Rightarrow> signature" where
  "target_signature t sid =
     session_signature (select_lines (tgt_history t) sid) (select_lines (tgt_output_history t) sid)"

section \<open>Example stores\<close>

text \<open>
  Two stores that share one session (session 1 of the first is session 7 of the second,
  with a \<open>NULL\<close> where the other has the empty string, and with other meta data), and a
  file of length zero.
\<close>

definition store_A :: source_file where
  "store_A =
     \<lparr>file_name = ''ipython_history_hostA_1000_completed.db'', st_mtime = Some 1001,
      database = Some
        \<lparr>sessions_tbl = Some [(1, (Some ''t1'', Some ''t2'', Some 2, None)),
                             (2, (Some ''t3'', None, Some 1, Some ''second''))],
         history_tbl = Some [(1, 1, Some ''x = 1'', Some ''x = 1''), (1, 2, Some ''x'', None),
                             (2, 1, Some ''y = 2'', Some ''y = 2'')],
         output_history_tbl = Some [(1, 2, Some ''1'')]\<rparr>\<rparr>"

definition store_B :: source_file where
  "store_B =
     \<lparr>file_name = ''ipython_history_hostB_200_2000.db'', st_mtime = Some 2001,
      database = Some
        \<lparr>sessions_tbl = Some [(7, (Some ''u1'', Some ''u2'', Some 2, Some ''copy'')),
                             (8, (Some ''u3'', None, Some 1, None))],
         history_tbl = Some [(8, 1, Some ''z = 3'', Some ''z = 3''),
                             (7, 2, Some ''x'', Some ''''), (7, 1, Some ''x = 1'', Some ''x = 1'')],
         output_history_tbl = Some [(7, 2, Some ''1'')]\<rparr>\<rparr>"

definition store_empty :: source_file where
  "store_empty =
     \<lparr>file_name = ''ipython_history_hostC_5_1500.db'', st_mtime = Some 1501, database = None\<rparr>"

definition session_A1 :: entry where
  "session_A1 =
     ((Some ''t1'', Some ''t2'', Some 2, None),
      [(1, Some ''x = 1'', Some ''x = 1''), (2, Some ''x'', None)], [(2, Some ''1'')])"


text \<open>A store whose \<open>history\<close> table holds line 1 of session 2 twice.\<close>

definition store_D :: source_file where
  "store_D =
     \<lparr>file_name = ''ipython_history_hostD_3_500.db'', st_mtime = Some 501,
      database = Some
        \<lparr>sessions_tbl = Some [(1, (Some ''d1'', None, Some 1, None)),
                             (2, (Some ''d2'', None, Some 2, None))],
         history_tbl = Some [(1, 1, Some ''a'', Some ''a''), (2, 1, Some ''b'', Some ''b''),
                             (2, 1, Some ''c'', Some ''c'')],
         output_history_tbl = None\<rparr>\<rparr>"



section \<open>Facts about names\<close>

lemma rfind_append: "c \<notin> set t \<Longrightarrow> rfind c (s @ c # t) = Some (length s)"
proof (induction s)
  case Nil
  have "rfind c t = None" using Nil by (induction t) auto
  then show ?case by simp
next
  case (Cons x s)
  then show ?case by simp
qed

lemma stem_db: "s \<noteq> [] \<Longrightarrow> stem (s @ ''.db'') = s"
  using rfind_append [of "CHR ''.''" "''db''" s] by (simp add: stem_def)

lemma split_on_nonempty: "split_on c xs \<noteq> []"
  by (induction xs) (auto split: list.splits)


lemma split_on_none: "c \<notin> set a \<Longrightarrow> split_on c a = [a]"
  by (induction a) (auto split: list.splits)


lemma split_on_append: "split_on c (xs @ c # ys) = split_on c xs @ split_on c ys"
  by (induction xs) (auto split: list.splits simp: split_on_nonempty)

lemma remove_all_plain:
  "CHR ''_'' \<notin> set d \<Longrightarrow> remove_all ''_completed'' 0 (d @ r) = d @ remove_all ''_completed'' 0 r"
  by (induction d) auto

lemma remove_all_keeps_last:
  assumes "CHR ''_'' \<notin> set d" and "d \<noteq> []" and "hd d \<noteq> CHR ''c''"
    and "CHR ''_'' \<notin> set (take k (s @ CHR ''_'' # d @ r))"
  shows "\<exists>y. remove_all ''_completed'' k (s @ CHR ''_'' # d @ r)
              = y @ CHR ''_'' # d @ remove_all ''_completed'' 0 r"
  using assms(4)
proof (induction s arbitrary: k)
  case Nil
  then have k: "k = 0" by (cases k) auto
  obtain c d' where d: "d = c # d'" "c \<noteq> CHR ''c''"
    using assms(2,3) by (cases d) auto
  have "remove_all ''_completed'' 0 (CHR ''_'' # d @ r) = CHR ''_'' # remove_all ''_completed'' 0 (d @ r)"
    using d by simp
  then show ?case using k remove_all_plain [OF assms(1), of r] by simp
next
  case (Cons x s)
  let ?rest = "s @ CHR ''_'' # d @ r"
  show ?case
  proof (cases k)
    case (Suc k')
    then have "CHR ''_'' \<notin> set (take k' ?rest)" using Cons.prems by simp
    from Cons.IH [OF this] show ?thesis using Suc by simp
  next
    case 0
    show ?thesis
    proof (cases "take (length ''_completed'') (x # ?rest) = ''_completed''")
      case True
      have len: "length ''_completed'' = Suc 9" by simp
      have "x # take 9 ?rest = CHR ''_'' # ''completed''"
        using True by (simp only: len take_Suc_Cons)
      then have t9: "take 9 ?rest = ''completed''"
        by (simp only: list.inject)
      have "CHR ''_'' \<notin> set (take 9 ?rest)"
        by (simp only: t9) simp
      from Cons.IH [OF this] obtain y where
        y: "remove_all ''_completed'' 9 ?rest = y @ CHR ''_'' # d @ remove_all ''_completed'' 0 r"
        by blast
      have "remove_all ''_completed'' 0 (x # ?rest)
          = remove_all ''_completed'' (length ''_completed'' - 1) ?rest"
        by (subst remove_all.simps(3)) (simp only: True, simp)
      also have "length ''_completed'' - 1 = 9" by simp
      finally have "remove_all ''_completed'' 0 (x # ?rest)
          = y @ CHR ''_'' # d @ remove_all ''_completed'' 0 r" using y by simp
      then show ?thesis using 0 by simp
    next
      case False
      have "CHR ''_'' \<notin> set (take 0 ?rest)" by simp
      from Cons.IH [OF this] obtain y where
        "remove_all ''_completed'' 0 ?rest = y @ CHR ''_'' # d @ remove_all ''_completed'' 0 r"
        by blast
      moreover have "remove_all ''_completed'' 0 (x # ?rest) = x # remove_all ''_completed'' 0 ?rest"
        by (subst remove_all.simps(3)) (simp only: False, simp)
      ultimately have "remove_all ''_completed'' 0 ((x # s) @ CHR ''_'' # d @ r)
          = (x # y) @ CHR ''_'' # d @ remove_all ''_completed'' 0 r"
        by simp
      then show ?thesis using 0 by blast
    qed
  qed
qed

lemma last_clean_field:
  assumes "CHR ''_'' \<notin> set d" and "d \<noteq> []" and "hd d \<noteq> CHR ''c''"
    and "remove_all ''_completed'' 0 r = []"
  shows "last (split_on CHR ''_'' (remove_all ''_completed'' 0 (s @ CHR ''_'' # d @ r))) = d"
proof -
  have "CHR ''_'' \<notin> set (take 0 (s @ CHR ''_'' # d @ r))" by simp
  from remove_all_keeps_last [OF assms(1-3) this] assms(4)
  obtain y where "remove_all ''_completed'' 0 (s @ CHR ''_'' # d @ r) = y @ CHR ''_'' # d" by auto
  then show ?thesis
    using assms(1) by (simp add: split_on_append split_on_none)
qed

lemma digits_of_props:
  "digits_of n \<noteq> [] \<and> list_all is_digit (digits_of n) \<and>
   foldl (\<lambda>acc d. 10 * acc + digit_val d) 0 (digits_of n) = int n"
proof (induction n rule: digits_of.induct)
  case (1 n)
  show ?case
  proof (cases "n < 10")
    case True
    then show ?thesis
      by (subst (1 2 3) digits_of.simps) (simp add: is_digit_def digit_val_def)
  next
    case False
    have m: "n mod 10 < 10" by simp
    have "(48 + n mod 10) mod 256 = 48 + n mod 10" using m by simp
    then have c: "is_digit (char_of (48 + n mod 10))"
      "digit_val (char_of (48 + n mod 10)) = int (n mod 10)"
      using m by (simp_all add: is_digit_def digit_val_def)
    have "int n = 10 * int (n div 10) + int (n mod 10)"
      by (metis mult.commute div_mult_mod_eq of_nat_add of_nat_mult of_nat_numeral)
    then show ?thesis
      using False 1 c by (subst (1 2 3) digits_of.simps) simp
  qed
qed

lemma dropWhile_none: "\<forall>x \<in> set xs. \<not> P x \<Longrightarrow> dropWhile P xs = xs"
  by (cases xs) auto

lemma digit_not_space: "is_digit c \<Longrightarrow> \<not> is_space c"
  by (auto simp: is_digit_def is_space_def)

lemma strip_digits: "list_all is_digit ds \<Longrightarrow> strip ds = ds"
proof -
  assume a: "list_all is_digit ds"
  then have 1: "\<forall>x \<in> set ds. \<not> is_space x"
    by (auto simp: list_all_iff digit_not_space)
  then have 2: "\<forall>x \<in> set (rev ds). \<not> is_space x" by simp
  show ?thesis
    unfolding strip_def by (simp only: dropWhile_none [OF 1] dropWhile_none [OF 2] rev_rev_ident)
qed

lemma py_int_digits_of: "py_int (digits_of n) = Some (int n)"
proof -
  note p = digits_of_props [of n]
  from p obtain c cs where ds: "digits_of n = c # cs" by (cases "digits_of n") auto
  have "is_digit c" using p ds by simp
  then have c: "c \<noteq> CHR ''-''" "c \<noteq> CHR ''+''" by (auto simp: is_digit_def)
  have "strip (digits_of n) = c # cs" using p ds strip_digits by metis
  moreover have "digits_val (c # cs) = Some (int n)"
    using p ds by (simp add: digits_val_def)
  ultimately show ?thesis using c by (simp add: py_int_def)
qed

lemma digits_of_field:
  "CHR ''_'' \<notin> set (digits_of n)" "digits_of n \<noteq> []" "hd (digits_of n) \<noteq> CHR ''c''"
proof -
  note p = digits_of_props [of n]
  have nd: "\<not> is_digit CHR ''_''" "\<not> is_digit CHR ''c''" by (simp_all add: is_digit_def)
  show "CHR ''_'' \<notin> set (digits_of n)" using p nd(1) by (auto simp: list_all_iff)
  show "digits_of n \<noteq> []" using p by simp
  then have "hd (digits_of n) \<in> set (digits_of n)" by simp
  then have "is_digit (hd (digits_of n))" using p by (simp add: list_all_iff)
  then show "hd (digits_of n) \<noteq> CHR ''c''" using nd(2) by metis
qed

lemma file_timestamp_regular: "file_timestamp (regular_name h p t) = Some (int t)"
proof -
  let ?s = "''ipython_history_'' @ h @ ''_'' @ digits_of p"
  have "regular_name h p t = (?s @ CHR ''_'' # digits_of t @ []) @ ''.db''"
    by (simp add: regular_name_def)
  then have "stem (regular_name h p t) = ?s @ CHR ''_'' # digits_of t @ []"
    using stem_db [of "?s @ CHR ''_'' # digits_of t @ []"] by simp
  moreover have "last (split_on CHR ''_'' (remove_all ''_completed'' 0 (?s @ CHR ''_'' # digits_of t @ [])))
      = digits_of t"
    by (rule last_clean_field [OF digits_of_field]) simp
  ultimately show ?thesis
    by (simp only: file_timestamp_def clean_parts_def py_int_digits_of)
qed

lemma file_timestamp_completed: "file_timestamp (completed_name h t) = Some (int t)"
proof -
  let ?s = "''ipython_history_'' @ h"
  have "completed_name h t = (?s @ CHR ''_'' # digits_of t @ ''_completed'') @ ''.db''"
    by (simp add: completed_name_def)
  then have "stem (completed_name h t) = ?s @ CHR ''_'' # digits_of t @ ''_completed''"
    using stem_db [of "?s @ CHR ''_'' # digits_of t @ ''_completed''"] by simp
  moreover have "last (split_on CHR ''_''
      (remove_all ''_completed'' 0 (?s @ CHR ''_'' # digits_of t @ ''_completed''))) = digits_of t"
    by (rule last_clean_field [OF digits_of_field]) simp
  ultimately show ?thesis
    by (simp only: file_timestamp_def clean_parts_def py_int_digits_of)
qed

lemma glob_match_append: "glob_match pre suf (pre @ mid @ suf)"
  by (simp add: glob_match_def startswith_def endswith_def)

lemma glob_match_regular:
  "glob_match (''ipython_history_'' @ h @ ''_'') ''.db'' (regular_name h p t)"
  using glob_match_append [where pre = "''ipython_history_'' @ h @ ''_''"
      and mid = "digits_of p @ ''_'' @ digits_of t" and suf = "''.db''"]
  by (simp add: regular_name_def)

lemma glob_match_completed:
  "glob_match (''ipython_history_'' @ h @ ''_'') ''.db'' (completed_name h t)"
  using glob_match_append [where pre = "''ipython_history_'' @ h @ ''_''"
      and mid = "digits_of t @ ''_completed''" and suf = "''.db''"]
  by (simp add: completed_name_def)

lemma safe_files_spec_example:
  "get_safe_files_for_merge
     [''ipython_history_hostA_100_1000.db'', ''ipython_history_hostA_1000_completed.db'',
      ''ipython_history_hostB_200_1000.db'']
     ''hostA'' ''ipython_history_hostA_999_2000.db''
   = Inr [''ipython_history_hostA_1000_completed.db'', ''ipython_history_hostB_200_1000.db'']"
  by code_simp

section \<open>The catalog\<close>

text \<open>
  C1. The safe set is meant to hold every file of another host that is not a completed
  snapshot. The in-progress file that host \<open>completedbox\<close> writes (process 1, time 2)
  is such a file when the running host is \<open>hostA\<close>: its name follows the grammar and
  does not end in \<open>_completed.db\<close>. The second loop drops it all the same, because the
  name contains \<open>_completed\<close>, so it is in neither part of the result.
\<close>

theorem safe_files_drops_completedbox:
  "regular_name ''completedbox'' 1 2 = ''ipython_history_completedbox_1_2.db'' \<and>
   \<not> glob_match ''ipython_history_'' ''_completed.db'' ''ipython_history_completedbox_1_2.db'' \<and>
   name_parts ''ipython_history_completedbox_1_2.db'' ! 2 = ''completedbox'' \<and>
   get_safe_files_for_merge [''ipython_history_completedbox_1_2.db''] ''hostA''
     ''ipython_history_hostA_999_2000.db'' = Inr []"
  by code_simp

text \<open>
  C6. A name with fewer than four fields, such as \<open>ipython_history_x_completed.db\<close>,
  takes neither \<open>return\<close> of \<open>sort_key\<close>: the key is \<open>None\<close>, not \<open>(False, 0)\<close>, and
  sorting it together with any other file raises \<open>TypeError\<close> instead of returning a list.
\<close>

theorem sort_key_short_name_raises:
  "glob_match ''ipython_history_'' ''_completed.db'' ''ipython_history_x_completed.db'' \<and>
   sort_key ''hostA'' ''ipython_history_x_completed.db'' = None \<and>
   get_safe_files_for_merge
     [''ipython_history_x_completed.db'', ''ipython_history_hostB_200_1000.db'']
     ''hostA'' ''ipython_history_hostA_999_2000.db'' = Inl TypeError"
  by code_simp




section \<open>The cleaner\<close>

lemma cleanup_pattern_mem:
  "name \<in> set (cleanup_pattern cutoff pre suf current_file sync_dir) \<longleftrightarrow>
     name \<in> set sync_dir \<and>
     \<not> (glob_match pre suf name \<and> name \<noteq> current_file \<and>
        (case file_timestamp name of Some t \<Rightarrow> real_of_int t < cutoff | None \<Rightarrow> False))"
  by (simp add: cleanup_pattern_def)

lemma cleanup_old_files_names:
  assumes "name = regular_name hostname pid t \<or> name = completed_name hostname t"
    and "name \<in> set sync_dir" and "name \<noteq> current_file"
  shows "name \<notin> set (cleanup_old_files sync_dir hostname current_file max_age_seconds now)
           \<longleftrightarrow> real t < now - real_of_int max_age_seconds"
proof -
  have g: "glob_match (''ipython_history_'' @ hostname @ ''_'') ''.db'' name"
    using assms(1) glob_match_regular glob_match_completed by blast
  have t: "file_timestamp name = Some (int t)"
    using assms(1) file_timestamp_regular file_timestamp_completed by blast
  show ?thesis
    using assms(2,3) g t by (auto simp: cleanup_old_files_def Let_def cleanup_pattern_mem)
qed



section \<open>The merger\<close>

subsection \<open>One session\<close>

lemma session_rows_append: "session_rows k (es @ [e]) = session_rows k es @ [(k + int (length es), fst e)]"
  by (induction es arbitrary: k) auto

lemma history_rows_append: "history_rows k (es @ [e]) = history_rows k es @ map (Pair (k + int (length es))) (fst (snd e))"
  by (induction es arbitrary: k) auto

lemma output_rows_append: "output_rows k (es @ [e]) = output_rows k es @ map (Pair (k + int (length es))) (snd (snd e))"
  by (induction es arbitrary: k) auto


lemma fst_session_rows: "fst ` set (session_rows k es) = {k ..< k + int (length es)}"
  by (induction es arbitrary: k) (auto simp: image_iff)

lemma fst_history_rows: "fst ` set (history_rows k es) \<subseteq> {k ..< k + int (length es)}"
  by (induction es arbitrary: k) (fastforce simp: image_iff)+

lemma fst_output_rows: "fst ` set (output_rows k es) \<subseteq> {k ..< k + int (length es)}"
  by (induction es arbitrary: k) (fastforce simp: image_iff)+

lemma insert_commands_ok:
  "distinct (map fst cs) \<Longrightarrow> \<forall>r \<in> set (tgt_history t). fst r = sid \<longrightarrow> fst (snd r) \<notin> fst ` set cs \<Longrightarrow>
   insert_commands sid cs t = Done (t\<lparr>tgt_history := tgt_history t @ map (Pair sid) cs\<rparr>)"
proof (induction cs arbitrary: t)
  case Nil then show ?case by simp
next
  case (Cons c cs)
  have k: "row_key (sid, c) \<notin> set (map row_key (tgt_history t))"
    using Cons.prems(2) by (auto simp: row_key_def)
  let ?t = "t\<lparr>tgt_history := tgt_history t @ [(sid, c)]\<rparr>"
  have "insert_commands sid cs ?t = Done (?t\<lparr>tgt_history := tgt_history ?t @ map (Pair sid) cs\<rparr>)"
    using Cons.prems by (intro Cons.IH) (auto simp: image_iff)
  then show ?case using k by (simp add: insert_history_def)
qed

lemma insert_outputs_ok:
  "distinct (map fst cs) \<Longrightarrow> \<forall>r \<in> set (tgt_output_history t). fst r = sid \<longrightarrow> fst (snd r) \<notin> fst ` set cs \<Longrightarrow>
   insert_outputs sid cs t = Done (t\<lparr>tgt_output_history := tgt_output_history t @ map (Pair sid) cs\<rparr>)"
proof (induction cs arbitrary: t)
  case Nil then show ?case by simp
next
  case (Cons c cs)
  have k: "row_key (sid, c) \<notin> set (map row_key (tgt_output_history t))"
    using Cons.prems(2) by (auto simp: row_key_def)
  let ?t = "t\<lparr>tgt_output_history := tgt_output_history t @ [(sid, c)]\<rparr>"
  have "insert_outputs sid cs ?t = Done (?t\<lparr>tgt_output_history := tgt_output_history ?t @ map (Pair sid) cs\<rparr>)"
    using Cons.prems by (intro Cons.IH) (auto simp: image_iff)
  then show ?case using k by (simp add: insert_output_def)
qed

lemma distinct_map_insort_key:
  "distinct (map f (insort_key g x xs)) = (f x \<notin> f ` set xs \<and> distinct (map f xs))"
  by (induction xs) (auto simp: set_insort_key)

lemma distinct_map_sort_key: "distinct (map f (List.sort_key g xs)) = distinct (map f xs)"
  by (induction xs) (simp_all add: distinct_map_insort_key)

lemma distinct_select_lines:
  "distinct (map row_key tbl) \<Longrightarrow> distinct (map fst (select_lines tbl s))"
proof -
  assume d: "distinct (map row_key tbl)"
  have "distinct (map fst (map snd (filter (\<lambda>r. fst r = s) tbl)))"
    using d by (induction tbl) (auto simp: row_key_def image_iff)
  then show ?thesis unfolding select_lines_def by (simp only: distinct_map_sort_key)
qed

lemma accept_cases:
  "entry_signature e \<in> entry_signature ` set acc \<Longrightarrow> accept acc e = acc"
  "entry_signature e \<notin> entry_signature ` set acc \<Longrightarrow> accept acc e = acc @ [e]"
  by (simp_all add: accept_def)

lemma merge_session_state:
  assumes st: "state_of st acc"
    and h: "history_tbl db = Some htbl"
    and d: "lines_ordered (read_session htbl (output_history_tbl db) r)"
  shows "\<exists>st'. merge_session db r st = Done st' \<and>
           state_of st' (accept acc (read_session htbl (output_history_tbl db) r)) \<and>
           warnings st' = warnings st"
proof -
  let ?e = "read_session htbl (output_history_tbl db) r"
  let ?cs = "select_lines htbl (fst r)"
  let ?os = "case output_history_tbl db of None \<Rightarrow> [] | Some otbl \<Rightarrow> select_lines otbl (fst r)"
  let ?sid = "next_session_id st"
  have e: "?e = (snd r, ?cs, ?os)" by (simp add: read_session_def)
  have sig: "session_signature ?cs ?os = entry_signature ?e"
    by (simp add: entry_signature_def e)
  show ?thesis
  proof (cases "entry_signature ?e \<in> seen_sessions st")
    case True
    then have "merge_session db r st = Done st"
      by (simp add: merge_session_def h Let_def sig)
    moreover have "accept acc ?e = acc"
      using True st by (simp add: accept_cases state_of_def)
    ultimately show ?thesis using st by simp
  next
    case False
    have sid: "?sid = 1 + int (length acc)" using st by (simp add: state_of_def)
    let ?st1 = "st\<lparr>seen_sessions := insert (entry_signature ?e) (seen_sessions st)\<rparr>"
    let ?t1 = "(target st)\<lparr>tgt_sessions := tgt_sessions (target st) @ [(?sid, snd r)]\<rparr>"
    let ?t2 = "?t1\<lparr>tgt_history := tgt_history ?t1 @ map (Pair ?sid) ?cs\<rparr>"
    let ?t3 = "?t2\<lparr>tgt_output_history := tgt_output_history ?t2 @ map (Pair ?sid) ?os\<rparr>"
    have "?sid \<notin> fst ` set (session_rows 1 acc)"
      by (simp add: fst_session_rows sid)
    then have i1: "insert_session (?sid, snd r) (target ?st1) = Inr ?t1"
      using st by (simp add: insert_session_def state_of_def)
    have nh: "?sid \<notin> fst ` set (tgt_history ?t1)"
      using fst_history_rows [of 1 acc] st by (auto simp: state_of_def sid)
    have dc: "distinct (map fst ?cs)" and do: "distinct (map fst ?os)"
      using d by (simp_all add: lines_ordered_def e)
    have i2: "insert_commands ?sid ?cs ?t1 = Done ?t2"
      using nh by (intro insert_commands_ok dc) (auto simp: image_iff)
    have no: "?sid \<notin> fst ` set (tgt_output_history ?t2)"
      using fst_output_rows [of 1 acc] st by (auto simp: state_of_def sid)
    have i3: "insert_outputs ?sid ?os ?t2 = Done ?t3"
      using no by (intro insert_outputs_ok do) (auto simp: image_iff)
    let ?st' = "?st1\<lparr>target := ?t3, next_session_id := ?sid + 1\<rparr>"
    have m: "merge_session db r st = Done ?st'"
      using False i1 i2 i3 by (simp add: merge_session_def h Let_def sig)
    have a: "accept acc ?e = acc @ [?e]"
      using False st by (simp add: accept_cases state_of_def)
    have "state_of ?st' (acc @ [?e])"
      using st d unfolding state_of_def
      by (simp add: session_rows_append history_rows_append output_rows_append e sid)
    with m a show ?thesis by simp
  qed
qed

lemma sorted_select_lines: "sorted (map fst (select_lines tbl s))"
  by (simp add: select_lines_def sorted_sort_key)

subsection \<open>One source, and the run\<close>

lemma merge_sessions_state:
  assumes "state_of st acc"
    and "history_tbl db = Some htbl"
    and "list_all (\<lambda>r. lines_ordered (read_session htbl (output_history_tbl db) r)) rs"
  shows "\<exists>st'. merge_sessions db rs st = Done st' \<and>
           state_of st' (foldl accept acc (map (read_session htbl (output_history_tbl db)) rs)) \<and>
           warnings st' = warnings st"
  using assms
proof (induction rs arbitrary: st acc)
  case Nil
  then show ?case by simp
next
  case (Cons r rs)
  from Cons.prems obtain st1 where s1: "merge_session db r st = Done st1"
      "state_of st1 (accept acc (read_session htbl (output_history_tbl db) r))"
      "warnings st1 = warnings st"
    using merge_session_state [of st acc db htbl r] by auto
  from Cons.IH [OF s1(2) Cons.prems(2)] Cons.prems(3)
  obtain st' where "merge_sessions db rs st1 = Done st'"
      "state_of st' (foldl accept (accept acc (read_session htbl (output_history_tbl db) r))
         (map (read_session htbl (output_history_tbl db)) rs))"
      "warnings st' = warnings st1"
    by auto
  with s1 show ?case by simp
qed

lemma state_of_warn: "state_of (warn v n st) acc = state_of st acc"
  by (simp add: warn_def state_of_def)

lemma lines_ordered_read_session:
  assumes "distinct (map row_key htbl)"
    and "case otbl of None \<Rightarrow> True | Some tbl \<Rightarrow> distinct (map row_key tbl)"
  shows "lines_ordered (read_session htbl otbl r)"
  using assms
  by (auto simp: lines_ordered_def read_session_def distinct_select_lines sorted_select_lines
        split: option.splits)

lemma merge_source_state:
  assumes st: "state_of st acc" and k: "keys_distinct f"
  shows "state_of (merge_source v st f)
           (foldl accept acc (case source_entries f of None \<Rightarrow> [] | Some es \<Rightarrow> es)) \<and>
         warnings (merge_source v st f) =
           warnings st @ (if v \<and> source_entries f = None then [file_name f] else [])"
proof (cases "database f")
  case None
  then show ?thesis using st
    by (simp add: merge_source_def source_entries_def state_of_warn) (simp add: warn_def)
next
  case (Some db)
  note db = this
  show ?thesis
  proof (cases "sessions_tbl db")
    case None
    then show ?thesis using st db
      by (simp add: merge_source_def source_entries_def state_of_warn) (simp add: warn_def)
  next
    case (Some stbl)
    note stbl = this
    show ?thesis
    proof (cases "history_tbl db")
      case None
      show ?thesis
      proof (cases "stbl = []")
        case True
        then show ?thesis using st db stbl None
          by (simp add: merge_source_def source_entries_def select_sessions_def)
      next
        case False
        then have "select_sessions stbl \<noteq> []"
          by (metis length_sort select_sessions_def length_0_conv)
        then obtain r rs where "select_sessions stbl = r # rs"
          by (cases "select_sessions stbl") auto
        then have "merge_sessions db (select_sessions stbl) st = Raised OperationalError st"
          using None by (simp add: merge_session_def)
        then show ?thesis using st db stbl None False
          by (simp add: merge_source_def source_entries_def state_of_warn) (simp add: warn_def)
      qed
    next
      case (Some htbl)
      have "distinct (map row_key htbl)"
        and "case output_history_tbl db of None \<Rightarrow> True | Some tbl \<Rightarrow> distinct (map row_key tbl)"
        using k db Some by (simp_all add: keys_distinct_def)
      then have "list_all (\<lambda>r. lines_ordered (read_session htbl (output_history_tbl db) r))
                   (select_sessions stbl)"
        by (simp add: list_all_iff lines_ordered_read_session)
      from merge_sessions_state [OF st Some this]
      show ?thesis using db stbl Some
        by (auto simp: merge_source_def source_entries_def)
    qed
  qed
qed

lemma foldl_merge_source_state:
  assumes "state_of st acc" and "list_all keys_distinct gs"
  shows "state_of (foldl (merge_source v) st gs)
           (foldl accept acc
              (concat (map (\<lambda>f. case source_entries f of None \<Rightarrow> [] | Some es \<Rightarrow> es) gs)))"
  using assms
proof (induction gs arbitrary: st acc)
  case Nil
  then show ?case by simp
next
  case (Cons g gs)
  from Cons.prems have "state_of (merge_source v st g)
      (foldl accept acc (case source_entries g of None \<Rightarrow> [] | Some es \<Rightarrow> es))"
    using merge_source_state [of st acc g v] by simp
  from Cons.IH [OF this] Cons.prems(2) show ?case by simp
qed

lemma set_files_with_times: "set (map snd (files_with_times fs)) \<subseteq> set fs"
  by (auto simp: files_with_times_def split: option.splits)

lemma state_of_initial: "state_of initial_state []"
  by (simp add: state_of_def initial_state_def)

lemma merge_histories_state:
  assumes "list_all keys_distinct fs"
  shows "state_of (merge_histories v fs) (foldl accept [] (processed_entries fs))"
proof -
  have "list_all keys_distinct (map snd (files_with_times fs))"
    using assms set_files_with_times [of fs] unfolding list_all_iff by blast
  from foldl_merge_source_state [OF state_of_initial this]
  show ?thesis by (simp add: merge_histories_def processed_entries_def)
qed

subsection \<open>The accepted sessions, and reading the target back\<close>

lemma foldl_accept: "foldl accept acc es = acc @ firsts (entry_signature ` set acc) es"
proof (induction es arbitrary: acc)
  case Nil
  then show ?case by simp
next
  case (Cons e es)
  show ?case
  proof (cases "entry_signature e \<in> entry_signature ` set acc")
    case True
    then show ?thesis using Cons.IH [of acc] by (simp add: accept_def)
  next
    case False
    then show ?thesis using Cons.IH [of "acc @ [e]"] by (simp add: accept_def)
  qed
qed





lemma filter_history_rows:
  "filter (\<lambda>r. fst r = j) (history_rows k es) =
     (if k \<le> j \<and> j < k + int (length es) then map (Pair j) (fst (snd (es ! nat (j - k)))) else [])"
proof (induction es arbitrary: k)
  case Nil
  then show ?case by auto
next
  case (Cons e es)
  have a: "filter (\<lambda>r. fst r = j) (map (Pair k) (fst (snd e)))
             = (if j = k then map (Pair j) (fst (snd e)) else [])"
    by (induction "fst (snd e)") (auto simp: filter_empty_conv)
  show ?case
  proof (cases "j = k")
    case True
    then show ?thesis using Cons.IH [of "k + 1"] a by simp
  next
    case False
    then have "nat (j - k) = Suc (nat (j - (k + 1)))" if "k \<le> j" using that by simp
    then show ?thesis using Cons.IH [of "k + 1"] a False by auto
  qed
qed

lemma filter_output_rows:
  "filter (\<lambda>r. fst r = j) (output_rows k es) =
     (if k \<le> j \<and> j < k + int (length es) then map (Pair j) (snd (snd (es ! nat (j - k)))) else [])"
proof (induction es arbitrary: k)
  case Nil
  then show ?case by auto
next
  case (Cons e es)
  have a: "filter (\<lambda>r. fst r = j) (map (Pair k) (snd (snd e)))
             = (if j = k then map (Pair j) (snd (snd e)) else [])"
    by (induction "snd (snd e)") (auto simp: filter_empty_conv)
  show ?case
  proof (cases "j = k")
    case True
    then show ?thesis using Cons.IH [of "k + 1"] a by simp
  next
    case False
    then have "nat (j - k) = Suc (nat (j - (k + 1)))" if "k \<le> j" using that by simp
    then show ?thesis using Cons.IH [of "k + 1"] a False by auto
  qed
qed

lemma map_snd_Pair: "map snd (map (Pair c) xs) = xs"
  by (simp add: comp_def)

lemma target_signature_state:
  assumes st: "state_of st acc" and i: "i < length acc"
  shows "select_lines (tgt_history (target st)) (1 + int i) = fst (snd (acc ! i))"
    and "select_lines (tgt_output_history (target st)) (1 + int i) = snd (snd (acc ! i))"
    and "target_signature (target st) (1 + int i) = entry_signature (acc ! i)"
proof -
  have o: "lines_ordered (acc ! i)"
    using st i by (simp add: state_of_def list_all_length)
  show h: "select_lines (tgt_history (target st)) (1 + int i) = fst (snd (acc ! i))"
    using st i o
    by (simp add: state_of_def select_lines_def filter_history_rows lines_ordered_def
        sort_key_id_if_sorted map_snd_Pair del: map_map)
  show g: "select_lines (tgt_output_history (target st)) (1 + int i) = snd (snd (acc ! i))"
    using st i o
    by (simp add: state_of_def select_lines_def filter_output_rows lines_ordered_def
        sort_key_id_if_sorted map_snd_Pair del: map_map)
  show "target_signature (target st) (1 + int i) = entry_signature (acc ! i)"
    by (simp add: target_signature_def entry_signature_def h g)
qed

lemma length_session_rows: "length (session_rows k es) = length es"
  by (induction es arbitrary: k) auto

lemma nth_session_rows: "i < length es \<Longrightarrow> session_rows k es ! i = (k + int i, fst (es ! i))"
proof (induction es arbitrary: k i)
  case Nil
  then show ?case by simp
next
  case (Cons e es)
  then show ?case by (cases i) (auto simp: algebra_simps)
qed


subsection \<open>Unreadable sources and warnings\<close>

lemma merge_source_unreadable:
  assumes "source_entries f = None"
  shows "merge_source v st f = warn v (file_name f) st"
proof (cases "database f")
  case None
  then show ?thesis by (simp add: merge_source_def)
next
  case (Some db)
  note db = this
  show ?thesis
  proof (cases "sessions_tbl db")
    case None
    then show ?thesis using db by (simp add: merge_source_def)
  next
    case (Some stbl)
    have h: "history_tbl db = None" and ne: "stbl \<noteq> []"
      using assms db Some by (auto simp: source_entries_def split: option.splits if_splits)
    from ne have "select_sessions stbl \<noteq> []"
      by (metis length_sort select_sessions_def length_0_conv)
    then obtain r rs where "select_sessions stbl = r # rs"
      by (cases "select_sessions stbl") auto
    then have "merge_sessions db (select_sessions stbl) st = Raised OperationalError st"
      using h by (simp add: merge_session_def)
    then show ?thesis using db Some by (simp add: merge_source_def)
  qed
qed

lemma merge_session_set_warnings:
  "merge_session db r (st\<lparr>warnings := w\<rparr>) =
     (case merge_session db r st of
        Done s \<Rightarrow> Done (s\<lparr>warnings := w\<rparr>)
      | Raised e s \<Rightarrow> Raised e (s\<lparr>warnings := w\<rparr>))"
  by (simp add: merge_session_def Let_def split: option.splits sum.splits outcome.splits)

lemma merge_sessions_set_warnings:
  "merge_sessions db rs (st\<lparr>warnings := w\<rparr>) =
     (case merge_sessions db rs st of
        Done s \<Rightarrow> Done (s\<lparr>warnings := w\<rparr>)
      | Raised e s \<Rightarrow> Raised e (s\<lparr>warnings := w\<rparr>))"
proof (induction rs arbitrary: st)
  case Nil
  then show ?case by simp
next
  case (Cons r rs)
  then show ?case
    by (simp add: merge_session_set_warnings split: outcome.splits)
qed

lemma merge_source_set_warnings:
  "(merge_source v (st\<lparr>warnings := w\<rparr>) f)\<lparr>warnings := []\<rparr>
     = (merge_source v st f)\<lparr>warnings := []\<rparr>"
  by (simp add: merge_source_def warn_def merge_sessions_set_warnings
      split: option.splits outcome.splits)

lemma foldl_merge_source_set_warnings:
  "(foldl (merge_source v) (st\<lparr>warnings := w\<rparr>) gs)\<lparr>warnings := []\<rparr>
     = (foldl (merge_source v) st gs)\<lparr>warnings := []\<rparr>"
proof (induction gs arbitrary: st w)
  case Nil
  then show ?case by simp
next
  case (Cons g gs)
  let ?a = "merge_source v (st\<lparr>warnings := w\<rparr>) g"
  let ?b = "merge_source v st g"
  have "?a\<lparr>warnings := []\<rparr> = ?b\<lparr>warnings := []\<rparr>"
    by (rule merge_source_set_warnings)
  then have "foldl (merge_source v) (?a\<lparr>warnings := []\<rparr>) gs
      = foldl (merge_source v) (?b\<lparr>warnings := []\<rparr>) gs" by simp
  then have "(foldl (merge_source v) (?a\<lparr>warnings := []\<rparr>) gs)\<lparr>warnings := []\<rparr>
      = (foldl (merge_source v) (?b\<lparr>warnings := []\<rparr>) gs)\<lparr>warnings := []\<rparr>" by simp
  then show ?case by (simp add: Cons.IH)
qed

lemma foldl_merge_source_skip:
  "(foldl (merge_source v) st gs)\<lparr>warnings := []\<rparr>
     = (foldl (merge_source v) st (filter (\<lambda>f. source_entries f \<noteq> None) gs))\<lparr>warnings := []\<rparr>"
proof (induction gs arbitrary: st)
  case Nil
  then show ?case by simp
next
  case (Cons g gs)
  show ?case
  proof (cases "source_entries g = None")
    case True
    have "merge_source v st g = st\<lparr>warnings := warnings (warn v (file_name g) st)\<rparr>"
      by (simp add: merge_source_unreadable [OF True] warn_def)
    then have "(foldl (merge_source v) st (g # gs))\<lparr>warnings := []\<rparr>
        = (foldl (merge_source v) (st\<lparr>warnings := warnings (warn v (file_name g) st)\<rparr>) gs)\<lparr>warnings := []\<rparr>"
      by simp
    also have "\<dots> = (foldl (merge_source v) st gs)\<lparr>warnings := []\<rparr>"
      by (rule foldl_merge_source_set_warnings)
    finally show ?thesis using True Cons.IH [of st] by simp
  next
    case False
    then show ?thesis using Cons.IH [of "merge_source v st g"] by simp
  qed
qed

lemma files_with_times_filter:
  "files_with_times (filter P fs) = filter (\<lambda>x. P (snd x)) (files_with_times fs)"
proof -
  have "concat (map (\<lambda>f. case source_time f of None \<Rightarrow> [] | Some t \<Rightarrow> [(t, f)]) (filter P fs))
      = filter (\<lambda>x. P (snd x))
          (concat (map (\<lambda>f. case source_time f of None \<Rightarrow> [] | Some t \<Rightarrow> [(t, f)]) fs))"
    by (induction fs) (auto split: option.splits)
  then show ?thesis by (simp add: files_with_times_def filter_sort)
qed

lemma merge_histories_skip:
  "(merge_histories v fs)\<lparr>warnings := []\<rparr>
     = (merge_histories v (filter (\<lambda>f. source_entries f \<noteq> None) fs))\<lparr>warnings := []\<rparr>"
proof -
  have "map snd (files_with_times (filter (\<lambda>f. source_entries f \<noteq> None) fs))
      = filter (\<lambda>f. source_entries f \<noteq> None) (map snd (files_with_times fs))"
    by (simp add: files_with_times_filter filter_map comp_def)
  then show ?thesis
    using foldl_merge_source_skip [of v initial_state "map snd (files_with_times fs)"]
    by (simp add: merge_histories_def)
qed

lemma warnings_merge_session:
  "warnings (case merge_session db r st of Done s \<Rightarrow> s | Raised e s \<Rightarrow> s) = warnings st"
  by (simp add: merge_session_def Let_def split: option.splits sum.splits outcome.splits)

lemma warnings_merge_sessions:
  "warnings (case merge_sessions db rs st of Done s \<Rightarrow> s | Raised e s \<Rightarrow> s) = warnings st"
proof (induction rs arbitrary: st)
  case Nil
  then show ?case by simp
next
  case (Cons r rs)
  show ?case
  proof (cases "merge_session db r st")
    case (Done s)
    then show ?thesis using Cons.IH [of s] warnings_merge_session [of db r st] by simp
  next
    case (Raised e s)
    then show ?thesis using warnings_merge_session [of db r st] by simp
  qed
qed

lemma warnings_merge_source:
  "warnings (merge_source v st f) = warnings st \<or>
   v \<and> warnings (merge_source v st f) = warnings st @ [file_name f]"
proof (cases "database f")
  case None
  then show ?thesis by (auto simp: merge_source_def warn_def)
next
  case (Some db)
  note db = this
  show ?thesis
  proof (cases "sessions_tbl db")
    case None
    then show ?thesis using db by (auto simp: merge_source_def warn_def)
  next
    case (Some stbl)
    then show ?thesis
      using db warnings_merge_sessions [of db "select_sessions stbl" st]
      by (auto simp: merge_source_def warn_def split: outcome.splits)
  qed
qed

lemma warnings_merge_source_mono:
  "set (warnings st) \<subseteq> set (warnings (merge_source v st f))"
  using warnings_merge_source [of v st f] by auto

lemma warnings_foldl_mono:
  "set (warnings st) \<subseteq> set (warnings (foldl (merge_source v) st gs))"
proof (induction gs arbitrary: st)
  case Nil
  then show ?case by simp
next
  case (Cons g gs)
  show ?case
    using warnings_merge_source_mono [of st v g] Cons.IH [of "merge_source v st g"] by auto
qed

lemma warnings_foldl_unreadable:
  assumes "g \<in> set gs" and "source_entries g = None"
  shows "file_name g \<in> set (warnings (foldl (merge_source True) st gs))"
  using assms
proof (induction gs arbitrary: st)
  case Nil
  then show ?case by simp
next
  case (Cons x gs)
  show ?case
  proof (cases "g = x")
    case True
    have "file_name g \<in> set (warnings (merge_source True st x))"
      using True Cons.prems(2) by (simp add: merge_source_unreadable warn_def)
    then show ?thesis using warnings_foldl_mono [of "merge_source True st x" True gs] by auto
  next
    case False
    then show ?thesis using Cons by auto
  qed
qed

lemma warnings_foldl_quiet:
  "warnings (foldl (merge_source False) st gs) = warnings st"
proof (induction gs arbitrary: st)
  case Nil
  then show ?case by simp
next
  case (Cons g gs)
  have "warnings (merge_source False st g) = warnings st"
    using warnings_merge_source [of False st g] by simp
  then show ?case using Cons.IH [of "merge_source False st g"] by simp
qed

subsection \<open>The claims on the merged target\<close>










lemma set_firsts: "set (firsts S es) \<subseteq> set es"
  by (induction es arbitrary: S) auto

text \<open>
  C7, as stated, fails on the warning: the message is printed under \<open>if verbose\<close>, so a
  run with \<open>verbose = False\<close> over a file of length zero records nothing.
\<close>

theorem merge_quiet_records_no_warning:
  "source_entries store_empty = None \<and>
   source_time store_empty = Some 1500 \<and>
   warnings (merge_histories False [store_empty, store_A]) = []"
  by code_simp

text \<open>
  C7, amended: the sources that cannot be read are skipped and the run goes on. The
  target, the set of seen signatures and the counter are those of the run on the readable
  sources alone; with \<open>verbose\<close> set, every unreadable source that has a time stamp is
  named in a warning; without \<open>verbose\<close> there is no warning.
\<close>

theorem merge_skips_unreadable_sources:
  "target (merge_histories verbose source_files)
     = target (merge_histories verbose (filter (\<lambda>f. source_entries f \<noteq> None) source_files)) \<and>
   seen_sessions (merge_histories verbose source_files)
     = seen_sessions (merge_histories verbose (filter (\<lambda>f. source_entries f \<noteq> None) source_files)) \<and>
   next_session_id (merge_histories verbose source_files)
     = next_session_id (merge_histories verbose (filter (\<lambda>f. source_entries f \<noteq> None) source_files)) \<and>
   (\<forall>f \<in> set source_files. source_entries f = None \<longrightarrow> source_time f \<noteq> None \<longrightarrow>
      file_name f \<in> set (warnings (merge_histories True source_files))) \<and>
   warnings (merge_histories False source_files) = []"
proof -
  let ?m = "merge_histories verbose source_files"
  let ?n = "merge_histories verbose (filter (\<lambda>f. source_entries f \<noteq> None) source_files)"
  have e: "?m\<lparr>warnings := []\<rparr> = ?n\<lparr>warnings := []\<rparr>" by (rule merge_histories_skip)
  have "target ?m = target (?m\<lparr>warnings := []\<rparr>)" by simp
  also have "\<dots> = target ?n" by (simp only: e) simp
  finally have t: "target ?m = target ?n" .
  have "seen_sessions ?m = seen_sessions (?m\<lparr>warnings := []\<rparr>)" by simp
  also have "\<dots> = seen_sessions ?n" by (simp only: e) simp
  finally have s: "seen_sessions ?m = seen_sessions ?n" .
  have "next_session_id ?m = next_session_id (?m\<lparr>warnings := []\<rparr>)" by simp
  also have "\<dots> = next_session_id ?n" by (simp only: e) simp
  finally have n: "next_session_id ?m = next_session_id ?n" .
  have w: "file_name f \<in> set (warnings (merge_histories True source_files))"
    if "f \<in> set source_files" "source_entries f = None" "source_time f \<noteq> None" for f
  proof -
    from that(3) obtain T where "source_time f = Some T" by auto
    then have "(T, f) \<in> set (files_with_times source_files)"
      using that(1) by (force simp: files_with_times_def)
    then have "f \<in> set (map snd (files_with_times source_files))" by force
    from warnings_foldl_unreadable [OF this that(2)]
    show ?thesis by (simp add: merge_histories_def)
  qed
  have q: "warnings (merge_histories False source_files) = []"
    by (simp add: merge_histories_def warnings_foldl_quiet initial_state_def)
  from t s n w q show ?thesis by blast
qed

theorem merge_skips_unreadable_sources_witness:
  "store_empty \<in> set [store_B, store_empty, store_A] \<and>
   source_entries store_empty = None \<and>
   source_time store_empty \<noteq> None \<and>
   file_name store_empty \<in> set (warnings (merge_histories True [store_B, store_empty, store_A])) \<and>
   target (merge_histories True [store_B, store_empty, store_A])
     = target (merge_histories True [store_B, store_A]) \<and>
   next_session_id (merge_histories True [store_B, store_empty, store_A]) = 4"
proof -
  let ?fs = "[store_B, store_empty, store_A]"
  have m: "store_empty \<in> set ?fs" by simp
  have e: "source_entries store_empty = None" by code_simp
  have t: "source_time store_empty \<noteq> None" by code_simp
  have f: "filter (\<lambda>f. source_entries f \<noteq> None) ?fs = [store_B, store_A]" by code_simp
  have n: "next_session_id (merge_histories True [store_B, store_A]) = 4" by code_simp
  note inst = merge_skips_unreadable_sources [of True ?fs]
  from inst have "target (merge_histories True ?fs) = target (merge_histories True [store_B, store_A])"
    by (simp only: f)
  moreover from inst have "next_session_id (merge_histories True ?fs) = 4"
    by (simp only: f n)
  moreover from inst m e t
  have "file_name store_empty \<in> set (warnings (merge_histories True ?fs))" by blast
  ultimately show ?thesis using m e t by blast
qed

text \<open>
  C8, as stated, fails: nothing is rolled back when an insert into the target raises. The
  second session of \<open>store_D\<close> has line 1 twice; its row in \<open>sessions\<close> and its first
  command are inserted, the second command violates the primary key, the source is given
  up with a warning, and the commit keeps the rows: session 2 is in the target with one of
  its two commands, next to session 1 of the same source, and the counter still says 2.
\<close>

theorem merge_commits_partial_session:
  "source_entries store_D =
     Some [((Some ''d1'', None, Some 1, None), [(1, Some ''a'', Some ''a'')], []),
           ((Some ''d2'', None, Some 2, None),
            [(1, Some ''b'', Some ''b''), (1, Some ''c'', Some ''c'')], [])] \<and>
   warnings (merge_histories True [store_D]) = [''ipython_history_hostD_3_500.db''] \<and>
   tgt_sessions (target (merge_histories True [store_D])) =
     [(1, (Some ''d1'', None, Some 1, None)), (2, (Some ''d2'', None, Some 2, None))] \<and>
   tgt_history (target (merge_histories True [store_D])) =
     [(1, 1, Some ''a'', Some ''a''), (2, 1, Some ''b'', Some ''b'')] \<and>
   next_session_id (merge_histories True [store_D]) = 2"
  by code_simp

text \<open>
  C8, amended: a source that cannot be read (no data base, no \<open>sessions\<close> table, or
  sessions and no \<open>history\<close> table) leaves the target, the seen signatures and the counter
  as they were. When all sources respect the keys of the schema, every session of the
  target is whole: its row carries the meta data of a session that was read, the target's
  commands and outputs under its id are all of that session's, and no command or output
  is stored under an id without a session.
\<close>

theorem merge_source_all_or_nothing:
  "(source_entries f = None \<longrightarrow>
      target (merge_source verbose st f) = target st \<and>
      seen_sessions (merge_source verbose st f) = seen_sessions st \<and>
      next_session_id (merge_source verbose st f) = next_session_id st) \<and>
   (list_all keys_distinct source_files \<longrightarrow>
      (\<forall>r \<in> set (tgt_sessions (target (merge_histories verbose source_files))).
         \<exists>e \<in> set (processed_entries source_files).
           snd r = fst e \<and>
           select_lines (tgt_history (target (merge_histories verbose source_files))) (fst r)
             = fst (snd e) \<and>
           select_lines (tgt_output_history (target (merge_histories verbose source_files))) (fst r)
             = snd (snd e)) \<and>
      fst ` set (tgt_history (target (merge_histories verbose source_files)))
        \<subseteq> fst ` set (tgt_sessions (target (merge_histories verbose source_files))) \<and>
      fst ` set (tgt_output_history (target (merge_histories verbose source_files)))
        \<subseteq> fst ` set (tgt_sessions (target (merge_histories verbose source_files))))"
proof (intro conjI impI)
  assume "source_entries f = None"
  then have m: "merge_source verbose st f = warn verbose (file_name f) st"
    by (rule merge_source_unreadable)
  show "target (merge_source verbose st f) = target st"
    and "seen_sessions (merge_source verbose st f) = seen_sessions st"
    and "next_session_id (merge_source verbose st f) = next_session_id st"
    by (simp_all add: m warn_def)
next
  assume k: "list_all keys_distinct source_files"
  let ?M = "merge_histories verbose source_files"
  let ?acc = "firsts {} (processed_entries source_files)"
  have st: "state_of ?M ?acc"
    using merge_histories_state [OF k, of verbose] by (simp add: foldl_accept)
  have rows: "tgt_sessions (target ?M) = session_rows 1 ?acc"
    using st by (simp add: state_of_def)
  show "\<forall>r \<in> set (tgt_sessions (target ?M)).
         \<exists>e \<in> set (processed_entries source_files).
           snd r = fst e \<and>
           select_lines (tgt_history (target ?M)) (fst r) = fst (snd e) \<and>
           select_lines (tgt_output_history (target ?M)) (fst r) = snd (snd e)"
  proof
    fix r assume "r \<in> set (tgt_sessions (target ?M))"
    then obtain i where i: "i < length ?acc" "r = session_rows 1 ?acc ! i"
      by (auto simp: rows in_set_conv_nth length_session_rows)
    then have r: "r = (1 + int i, fst (?acc ! i))" by (simp add: nth_session_rows)
    have "?acc ! i \<in> set (processed_entries source_files)"
      using i(1) set_firsts [of "{}" "processed_entries source_files"] by (meson nth_mem subsetD)
    moreover have "snd r = fst (?acc ! i)" by (simp add: r)
    moreover have "select_lines (tgt_history (target ?M)) (fst r) = fst (snd (?acc ! i))"
      using target_signature_state(1) [OF st i(1)] by (simp add: r)
    moreover have "select_lines (tgt_output_history (target ?M)) (fst r) = snd (snd (?acc ! i))"
      using target_signature_state(2) [OF st i(1)] by (simp add: r)
    ultimately show "\<exists>e \<in> set (processed_entries source_files).
           snd r = fst e \<and>
           select_lines (tgt_history (target ?M)) (fst r) = fst (snd e) \<and>
           select_lines (tgt_output_history (target ?M)) (fst r) = snd (snd e)"
      by blast
  qed
  show "fst ` set (tgt_history (target ?M)) \<subseteq> fst ` set (tgt_sessions (target ?M))"
    using st fst_history_rows [of 1 ?acc] by (simp add: state_of_def fst_session_rows)
  show "fst ` set (tgt_output_history (target ?M)) \<subseteq> fst ` set (tgt_sessions (target ?M))"
    using st fst_output_rows [of 1 ?acc] by (simp add: state_of_def fst_session_rows)
qed

theorem merge_source_all_or_nothing_witness:
  "source_entries store_empty = None \<and>
   target (merge_source True initial_state store_empty) = target initial_state \<and>
   list_all keys_distinct [store_B, store_empty, store_A] \<and>
   (1, fst session_A1) \<in> set (tgt_sessions (target (merge_histories True [store_B, store_empty, store_A]))) \<and>
   (\<exists>e \<in> set (processed_entries [store_B, store_empty, store_A]).
      fst session_A1 = fst e \<and>
      select_lines (tgt_history (target (merge_histories True [store_B, store_empty, store_A]))) 1
        = fst (snd e) \<and>
      select_lines (tgt_output_history (target (merge_histories True [store_B, store_empty, store_A]))) 1
        = snd (snd e))"
proof -
  let ?T = "target (merge_histories True [store_B, store_empty, store_A])"
  have e: "source_entries store_empty = None" by code_simp
  have k: "list_all keys_distinct [store_B, store_empty, store_A]" by code_simp
  have m: "(1, fst session_A1) \<in> set (tgt_sessions ?T)" by code_simp
  note inst = merge_source_all_or_nothing
         [of store_empty True initial_state "[store_B, store_empty, store_A]"]
  from inst e have a: "target (merge_source True initial_state store_empty) = target initial_state"
    by blast
  from inst k have "\<forall>r \<in> set (tgt_sessions ?T).
         \<exists>e \<in> set (processed_entries [store_B, store_empty, store_A]).
           snd r = fst e \<and>
           select_lines (tgt_history ?T) (fst r) = fst (snd e) \<and>
           select_lines (tgt_output_history ?T) (fst r) = snd (snd e)"
    by blast
  from bspec [OF this m]
  have b: "\<exists>e \<in> set (processed_entries [store_B, store_empty, store_A]).
      fst session_A1 = fst e \<and>
      select_lines (tgt_history ?T) 1 = fst (snd e) \<and>
      select_lines (tgt_output_history ?T) 1 = snd (snd e)"
    by simp
  from e a k m b show ?thesis by blast
qed

subsection \<open>The order of the sources\<close>













end
